theory Spec2Isabelle
  imports Complex_Main "HOL-Library.Multiset" "HOL-Library.Sublist"
begin

section \<open>Errors and Python primitives\<close>

text \<open>
  The exceptions the modelled code can raise. A function that can raise returns
  \<open>error + 'a\<close>, with \<open>Inl\<close> for the exception.
\<close>

datatype error =
    ZeroDivisionError
  | ValueError
  | OverflowError
  | JSONDecodeError
  | IsADirectoryError
  | NotADirectoryError
  | FileExistsError
  | FileNotFoundError
  | APIError

text \<open>\<open>sum(...)\<close> adds from the left, starting at 0.\<close>

definition py_sum :: "real list \<Rightarrow> real" where
  "py_sum xs = foldl (+) 0 xs"

text \<open>
  \<open>math.sqrt\<close> on a float raises ValueError on a negative argument. (An int is
  converted first, which can raise OverflowError: see \<open>num_sqrt\<close>.)
\<close>

definition py_sqrt :: "real \<Rightarrow> error + real" where
  "py_sqrt x = (if x < 0 then Inl ValueError else Inr (sqrt x))"

text \<open>Float division raises ZeroDivisionError on a zero divisor.\<close>

definition py_div :: "real \<Rightarrow> real \<Rightarrow> error + real" where
  "py_div x y = (if y = 0 then Inl ZeroDivisionError else Inr (x / y))"

text \<open>\<open>x or 1e-8\<close> on floats: the float is falsy exactly when it is zero.\<close>

definition or_eps :: "real \<Rightarrow> real" where
  "or_eps x = (if x = 0 then 1 / 10 ^ 8 else x)"

text \<open>The slice \<open>xs[:k]\<close>; a negative \<open>k\<close> counts from the end.\<close>

definition slice_to :: "'a list \<Rightarrow> int \<Rightarrow> 'a list" where
  "slice_to xs k =
     (if 0 \<le> k then take (nat k) xs else take (length xs - nat (- k)) xs)"

section \<open>vectorstore.py\<close>

subsection \<open>cosine\_similarity\<close>

text \<open>
  \<open>cosine_similarity\<close> read on lists of floats, as its annotation \<open>List[float]\<close> has
  it, with the floats taken as exact reals: rounding, overflow to infinity and NaN
  are not represented here. The same lines on Python's numbers, with ints and with
  the float operations left open, are \<open>py_cosine_similarity\<close> below; the two agree
  on float lists at exact arithmetic.
\<close>

definition cosine_similarity :: "real list \<Rightarrow> real list \<Rightarrow> error + real" where
  "cosine_similarity a b =
     (let dot = py_sum (map (\<lambda>(x, y). x * y) (zip a b)) in
      case py_sqrt (py_sum (map (\<lambda>x. x * x) a)) of
        Inl e \<Rightarrow> Inl e
      | Inr ra \<Rightarrow>
          (let na = or_eps ra in
           case py_sqrt (py_sum (map (\<lambda>y. y * y) b)) of
             Inl e \<Rightarrow> Inl e
           | Inr rb \<Rightarrow>
               (let nb = or_eps rb in py_div dot (na * nb))))"

text \<open>
  The two quantities \<open>cosine_similarity\<close> combines, named for the statements below:
  the dot product over the zipped pairs and the norm with its zero replaced.
\<close>

definition dot_product :: "real list \<Rightarrow> real list \<Rightarrow> real" where
  "dot_product a b = py_sum (map (\<lambda>(x, y). x * y) (zip a b))"

definition safe_norm :: "real list \<Rightarrow> real" where
  "safe_norm a = or_eps (sqrt (py_sum (map (\<lambda>x. x * x) a)))"

subsection \<open>SimpleVectorStore\<close>

text \<open>
  A store item is the dictionary built by \<open>add\<close>. \<open>search\<close> reads the embedding with
  \<open>item.get("embedding")\<close>, so the key may be absent: \<open>None\<close> stands for a missing
  key.
\<close>

record item =
  item_id :: string
  item_text :: string
  item_source :: string
  embedding :: "real list option"

type_synonym path = "string list"

record store =
  path :: path
  items :: "item list"

definition init :: "path \<Rightarrow> store" where
  "init p = \<lparr>path = p, items = []\<rparr>"

definition add :: "store \<Rightarrow> string \<Rightarrow> string \<Rightarrow> string \<Rightarrow> real list \<Rightarrow> store" where
  "add self doc_id txt src emb =
     self\<lparr>items := items self @
       [\<lparr>item_id = doc_id, item_text = txt, item_source = src, embedding = Some emb\<rparr>]\<rparr>"

text \<open>
  The score of one item in the loop of \<open>search\<close>: the cosine similarity when
  \<open>item.get("embedding")\<close> is truthy (present and not the empty list), else 0.0.
\<close>

definition item_score :: "real list \<Rightarrow> item \<Rightarrow> error + real" where
  "item_score query_embedding it =
     (case embedding it of
        None \<Rightarrow> Inr 0
      | Some e \<Rightarrow> if e \<noteq> [] then cosine_similarity query_embedding e else Inr 0)"

text \<open>The loop building \<open>scored\<close>; the first exception ends it.\<close>

fun score_all :: "real list \<Rightarrow> item list \<Rightarrow> (real \<times> item) list \<Rightarrow> error + (real \<times> item) list" where
  "score_all q [] scored = Inr scored"
| "score_all q (it # rest) scored =
     (case item_score q it of
        Inl e \<Rightarrow> Inl e
      | Inr score \<Rightarrow> score_all q rest (scored @ [(score, it)]))"

text \<open>
  \<open>list.sort(key=..., reverse=True)\<close> is a stable sort into descending key order:
  elements with equal keys keep their relative order.
\<close>

definition sort_desc :: "('a \<Rightarrow> real) \<Rightarrow> 'a list \<Rightarrow> 'a list" where
  "sort_desc key xs = sort_key (\<lambda>x. - key x) xs"

text \<open>
  \<open>search\<close> returns its result together with the store as the call leaves it.
\<close>

definition search :: "store \<Rightarrow> real list \<Rightarrow> int \<Rightarrow> error + (item list \<times> store)" where
  "search self query_embedding k =
     (case score_all query_embedding (items self) [] of
        Inl e \<Rightarrow> Inl e
      | Inr scored \<Rightarrow> Inr (map snd (slice_to (sort_desc fst scored) k), self))"

text \<open>The score \<open>search\<close> ranks an item by, as a plain number.\<close>

definition score_val :: "real list \<Rightarrow> item \<Rightarrow> real" where
  "score_val q it = (case item_score q it of Inr s \<Rightarrow> s | Inl e \<Rightarrow> 0)"

subsection \<open>The same code on Python's numbers\<close>

text \<open>
  The definitions above read an embedding as a list of floats and compute with exact
  reals. What Python runs is wider and coarser: an entry read by \<open>json.loads\<close> is an
  int or a float; ints are exact and unbounded and are converted where they meet a
  float, which raises OverflowError beyond the range of a double; floats are rounded,
  can be infinite or NaN, and the sort compares them with \<open><\<close>. Here the ints are
  modelled as they are and the float operations are parameters, about which nothing
  is assumed.
\<close>

datatype 'f num = PInt int | PFloat 'f

record 'f arith =
  fadd :: "'f \<Rightarrow> 'f \<Rightarrow> 'f"
  fmul :: "'f \<Rightarrow> 'f \<Rightarrow> 'f"
  fdiv :: "'f \<Rightarrow> 'f \<Rightarrow> 'f"
  fsqrt :: "'f \<Rightarrow> 'f"
  fless :: "'f \<Rightarrow> 'f \<Rightarrow> bool"
  fis_zero :: "'f \<Rightarrow> bool"
  fzero :: 'f
  feps :: 'f
  of_int_f :: "int \<Rightarrow> 'f"

text \<open>
  An int becomes a float by rounding to the nearest double; from
  \<open>2^1024 - 2^970\<close> on, the rounding leaves the range and Python raises
  OverflowError.
\<close>

definition to_float :: "'f arith \<Rightarrow> 'f num \<Rightarrow> error + 'f" where
  "to_float fp v =
     (case v of
        PFloat x \<Rightarrow> Inr x
      | PInt n \<Rightarrow> if \<bar>n\<bar> < 2 ^ 1024 - 2 ^ 970 then Inr (of_int_f fp n) else Inl OverflowError)"

text \<open>\<open>x * y\<close> and \<open>x + y\<close>: exact on two ints, on floats otherwise.\<close>

definition num_mul :: "'f arith \<Rightarrow> 'f num \<Rightarrow> 'f num \<Rightarrow> error + 'f num" where
  "num_mul fp v w =
     (case (v, w) of
        (PInt m, PInt n) \<Rightarrow> Inr (PInt (m * n))
      | _ \<Rightarrow>
          (case to_float fp v of
             Inl e \<Rightarrow> Inl e
           | Inr x \<Rightarrow>
               (case to_float fp w of
                  Inl e \<Rightarrow> Inl e
                | Inr y \<Rightarrow> Inr (PFloat (fmul fp x y)))))"

definition num_add :: "'f arith \<Rightarrow> 'f num \<Rightarrow> 'f num \<Rightarrow> error + 'f num" where
  "num_add fp v w =
     (case (v, w) of
        (PInt m, PInt n) \<Rightarrow> Inr (PInt (m + n))
      | _ \<Rightarrow>
          (case to_float fp v of
             Inl e \<Rightarrow> Inl e
           | Inr x \<Rightarrow>
               (case to_float fp w of
                  Inl e \<Rightarrow> Inl e
                | Inr y \<Rightarrow> Inr (PFloat (fadd fp x y)))))"

text \<open>
  \<open>sum(f(x) for x in xs)\<close>: the generator hands over one summand at a time, which
  is added to the total before the next is computed. The total starts at the int 0.
\<close>

fun sum_of :: "'f arith \<Rightarrow> ('a \<Rightarrow> error + 'f num) \<Rightarrow> 'f num \<Rightarrow> 'a list \<Rightarrow> error + 'f num" where
  "sum_of fp summand acc [] = Inr acc"
| "sum_of fp summand acc (x # xs) =
     (case summand x of
        Inl e \<Rightarrow> Inl e
      | Inr t \<Rightarrow>
          (case num_add fp acc t of
             Inl e \<Rightarrow> Inl e
           | Inr acc1 \<Rightarrow> sum_of fp summand acc1 xs))"

text \<open>\<open>math.sqrt\<close> converts its argument to a float first.\<close>

definition num_sqrt :: "'f arith \<Rightarrow> 'f num \<Rightarrow> error + 'f" where
  "num_sqrt fp v =
     (case to_float fp v of
        Inl e \<Rightarrow> Inl e
      | Inr x \<Rightarrow> if fless fp x (fzero fp) then Inl ValueError else Inr (fsqrt fp x))"

definition or_eps_f :: "'f arith \<Rightarrow> 'f \<Rightarrow> 'f" where
  "or_eps_f fp x = (if fis_zero fp x then feps fp else x)"

text \<open>\<open>v / d\<close> for a float \<open>d\<close>: \<open>v\<close> is converted, then the divisor is tested.\<close>

definition num_truediv :: "'f arith \<Rightarrow> 'f num \<Rightarrow> 'f \<Rightarrow> error + 'f" where
  "num_truediv fp v d =
     (case to_float fp v of
        Inl e \<Rightarrow> Inl e
      | Inr x \<Rightarrow> if fis_zero fp d then Inl ZeroDivisionError else Inr (fdiv fp x d))"

definition py_cosine_similarity :: "'f arith \<Rightarrow> 'f num list \<Rightarrow> 'f num list \<Rightarrow> error + 'f" where
  "py_cosine_similarity fp a b =
     (case sum_of fp (\<lambda>(x, y). num_mul fp x y) (PInt 0) (zip a b) of
        Inl e \<Rightarrow> Inl e
      | Inr dot \<Rightarrow>
          (case sum_of fp (\<lambda>x. num_mul fp x x) (PInt 0) a of
             Inl e \<Rightarrow> Inl e
           | Inr sa \<Rightarrow>
               (case num_sqrt fp sa of
                  Inl e \<Rightarrow> Inl e
                | Inr ra \<Rightarrow>
                    (let na = or_eps_f fp ra in
                     case sum_of fp (\<lambda>y. num_mul fp y y) (PInt 0) b of
                       Inl e \<Rightarrow> Inl e
                     | Inr sb \<Rightarrow>
                         (case num_sqrt fp sb of
                            Inl e \<Rightarrow> Inl e
                          | Inr rb \<Rightarrow>
                              (let nb = or_eps_f fp rb
                               in num_truediv fp dot (fmul fp na nb)))))))"

text \<open>
  \<open>search\<close> on a list of stored dictionaries of any type \<open>'a\<close>; \<open>get_embedding\<close>
  is \<open>item.get("embedding")\<close>.
\<close>

definition py_item_score ::
  "'f arith \<Rightarrow> ('a \<Rightarrow> 'f num list option) \<Rightarrow> 'f num list \<Rightarrow> 'a \<Rightarrow> error + 'f" where
  "py_item_score fp get_embedding query_embedding it =
     (case get_embedding it of
        None \<Rightarrow> Inr (fzero fp)
      | Some e \<Rightarrow>
          if e \<noteq> [] then py_cosine_similarity fp query_embedding e else Inr (fzero fp))"

fun py_score_all ::
  "'f arith \<Rightarrow> ('a \<Rightarrow> 'f num list option) \<Rightarrow> 'f num list \<Rightarrow> 'a list \<Rightarrow> ('f \<times> 'a) list
     \<Rightarrow> error + ('f \<times> 'a) list" where
  "py_score_all fp get_embedding q [] scored = Inr scored"
| "py_score_all fp get_embedding q (it # rest) scored =
     (case py_item_score fp get_embedding q it of
        Inl e \<Rightarrow> Inl e
      | Inr score \<Rightarrow> py_score_all fp get_embedding q rest (scored @ [(score, it)]))"

text \<open>
  \<open>list.sort(key=..., reverse=True)\<close> reverses the list, sorts it stably into
  ascending order comparing keys with \<open><\<close> alone, and reverses the result. The
  stable sort is written as an insertion sort: where \<open><\<close> orders the keys linearly,
  every stable sort returns the same list.
\<close>

fun insort_less :: "('k \<Rightarrow> 'k \<Rightarrow> bool) \<Rightarrow> ('a \<Rightarrow> 'k) \<Rightarrow> 'a \<Rightarrow> 'a list \<Rightarrow> 'a list" where
  "insort_less lt key x [] = [x]"
| "insort_less lt key x (y # ys) =
     (if lt (key y) (key x) then y # insort_less lt key x ys else x # y # ys)"

definition sort_less :: "('k \<Rightarrow> 'k \<Rightarrow> bool) \<Rightarrow> ('a \<Rightarrow> 'k) \<Rightarrow> 'a list \<Rightarrow> 'a list" where
  "sort_less lt key xs = foldr (insort_less lt key) xs []"

definition sort_reverse :: "('k \<Rightarrow> 'k \<Rightarrow> bool) \<Rightarrow> ('a \<Rightarrow> 'k) \<Rightarrow> 'a list \<Rightarrow> 'a list" where
  "sort_reverse lt key xs = rev (sort_less lt key (rev xs))"

definition py_search ::
  "'f arith \<Rightarrow> ('a \<Rightarrow> 'f num list option) \<Rightarrow> 'a list \<Rightarrow> 'f num list \<Rightarrow> int \<Rightarrow> error + 'a list" where
  "py_search fp get_embedding its query_embedding k =
     (case py_score_all fp get_embedding query_embedding its [] of
        Inl e \<Rightarrow> Inl e
      | Inr scored \<Rightarrow> Inr (map snd (slice_to (sort_reverse (fless fp) fst scored) k)))"

text \<open>Exact arithmetic on the reals, as one instance of the parameters.\<close>

definition exact_arith :: "real arith" where
  "exact_arith =
     \<lparr>fadd = (+), fmul = (*), fdiv = (/), fsqrt = sqrt, fless = (<),
      fis_zero = (\<lambda>x. x = 0), fzero = 0, feps = 1 / 10 ^ 8, of_int_f = of_int\<rparr>"

subsection \<open>The backing file\<close>

text \<open>
  The file system as far as the store uses it: the text files by path and the
  directories. \<open>json.dumps\<close> and \<open>json.loads\<close> are library code and are taken as
  parameters. The same record holds the two other outside services of the
  pipeline, the embedding endpoint (with the number of the call, since it need not
  answer alike twice) and \<open>uuid.uuid4\<close> (the n-th identifier drawn).
\<close>

record world =
  files :: "path \<rightharpoonup> string"
  dirs :: "path set"
  api_calls :: "string list list"
  uuid_calls :: nat

record env =
  dumps :: "item list \<Rightarrow> string"
  loads :: "string \<Rightarrow> error + item list"
  embeddings_create :: "nat \<Rightarrow> string list \<Rightarrow> error + real list list"
  uuid4 :: "nat \<Rightarrow> string"

definition parent :: "path \<Rightarrow> path" where
  "parent p = butlast p"

definition path_exists :: "world \<Rightarrow> path \<Rightarrow> bool" where
  "path_exists w p = (p \<in> dom (files w) \<or> p \<in> dirs w)"

text \<open>
  \<open>mkdir(parents=True, exist_ok=True)\<close>: the directory and its ancestors exist
  afterwards. It raises NotADirectoryError when a proper ancestor is a file and
  FileExistsError when the path itself is a file.
\<close>

definition mkdir_parents :: "world \<Rightarrow> path \<Rightarrow> error + world" where
  "mkdir_parents w d =
     (if \<exists>p \<in> set (prefixes d). p \<noteq> d \<and> p \<in> dom (files w) then Inl NotADirectoryError
      else if d \<in> dom (files w) then Inl FileExistsError
      else Inr (w\<lparr>dirs := dirs w \<union> set (prefixes d)\<rparr>))"

definition read_text :: "world \<Rightarrow> path \<Rightarrow> error + string" where
  "read_text w p =
     (if p \<in> dirs w then Inl IsADirectoryError
      else case files w p of None \<Rightarrow> Inl FileNotFoundError | Some txt \<Rightarrow> Inr txt)"

definition write_text :: "world \<Rightarrow> path \<Rightarrow> string \<Rightarrow> error + world" where
  "write_text w p txt =
     (if p \<in> dirs w then Inl IsADirectoryError
      else Inr (w\<lparr>files := (files w)(p \<mapsto> txt)\<rparr>))"

definition load :: "env \<Rightarrow> store \<Rightarrow> world \<Rightarrow> error + store" where
  "load ev self w =
     (if path_exists w (path self) then
        (case read_text w (path self) of
           Inl e \<Rightarrow> Inl e
         | Inr txt \<Rightarrow>
             (case loads ev txt of
                Inl e \<Rightarrow> Inl e
              | Inr its \<Rightarrow> Inr (self\<lparr>items := its\<rparr>)))
      else Inr (self\<lparr>items := []\<rparr>))"

definition save :: "env \<Rightarrow> store \<Rightarrow> world \<Rightarrow> error + world" where
  "save ev self w =
     (case mkdir_parents w (parent (path self)) of
        Inl e \<Rightarrow> Inl e
      | Inr w1 \<Rightarrow> write_text w1 (path self) (dumps ev (items self)))"

section \<open>rag.py\<close>

subsection \<open>Strings\<close>

text \<open>
  \<open>str.strip()\<close> removes the whitespace at both ends; these are the whitespace
  characters of Python below code point 256.
\<close>

definition is_space :: "char \<Rightarrow> bool" where
  "is_space c =
     (let n = (of_char c :: nat) in
      (9 \<le> n \<and> n \<le> 13) \<or> (28 \<le> n \<and> n \<le> 32) \<or> n = 133 \<or> n = 160)"

definition strip :: "string \<Rightarrow> string" where
  "strip s = rev (dropWhile is_space (rev (dropWhile is_space s)))"

text \<open>The slice \<open>xs[i:j]\<close> with Python's treatment of negative and large indices.\<close>

definition clamp_index :: "int \<Rightarrow> int \<Rightarrow> nat" where
  "clamp_index n i = nat (if i < 0 then max (i + n) 0 else min i n)"

definition slice :: "'a list \<Rightarrow> int \<Rightarrow> int \<Rightarrow> 'a list" where
  "slice xs i j =
     (let n = int (length xs); lo = clamp_index n i; hi = clamp_index n j
      in take (hi - lo) (drop lo xs))"

subsection \<open>chunk\_text\<close>

text \<open>
  The \<open>while\<close> loop of \<open>chunk_text\<close>, with its variables \<open>start\<close> and \<open>chunks\<close> as
  arguments. Nothing bounds the number of rounds, so the loop is a partial
  function: \<open>None\<close> is a run that never returns.
\<close>

partial_function (option) chunk_loop ::
  "string \<Rightarrow> int \<Rightarrow> int \<Rightarrow> int \<Rightarrow> string list \<Rightarrow> string list option" where
  "chunk_loop txt chunk_size overlap start chunks =
     (let n = int (length txt) in
      if start < n then
        (let end = min (start + chunk_size) n;
             chunk = strip (slice txt start end);
             chunks1 = (if chunk \<noteq> [] then chunks @ [chunk] else chunks)
         in if end = n then Some chunks1
            else (let start1 = end - overlap;
                      start2 = (if start1 < 0 then 0 else start1)
                  in chunk_loop txt chunk_size overlap start2 chunks1))
      else Some chunks)"

declare chunk_loop.simps [code]

definition chunk_text :: "string \<Rightarrow> int \<Rightarrow> int \<Rightarrow> string list option" where
  "chunk_text txt chunk_size overlap = chunk_loop txt chunk_size overlap 0 []"

text \<open>
  The windows \<open>[start, end)\<close> the loop visits for as long as \<open>start\<close> moves forward,
  as a total function; \<open>chunk_loop_spans\<close> below relates it to the loop.
\<close>

function chunk_spans :: "int \<Rightarrow> int \<Rightarrow> int \<Rightarrow> int \<Rightarrow> (int \<times> int) list" where
  "chunk_spans n chunk_size overlap start =
     (if start < n then
        (let end = min (start + chunk_size) n in
         if end = n then [(start, end)]
         else (let start1 = end - overlap;
                   start2 = (if start1 < 0 then 0 else start1)
               in if start < start2
                  then (start, end) # chunk_spans n chunk_size overlap start2
                  else [(start, end)]))
      else [])"
  by pat_completeness auto
termination
  by (relation "measure (\<lambda>(n, chunk_size, overlap, start). nat (n - start))") auto

declare chunk_spans.simps [simp del]

text \<open>What the loop appends for a list of windows: the trimmed, non-empty slices.\<close>

definition trim_windows :: "string \<Rightarrow> (int \<times> int) list \<Rightarrow> string list" where
  "trim_windows txt spans =
     filter (\<lambda>c. c \<noteq> []) (map (\<lambda>(s, e). strip (slice txt s e)) spans)"

text \<open>
  Putting pieces together again when each piece repeats the last \<open>k\<close> characters of
  the piece before it.
\<close>

fun rejoin :: "nat \<Rightarrow> 'a list list \<Rightarrow> 'a list" where
  "rejoin k [] = []"
| "rejoin k (w # ws) = w @ concat (map (drop k) ws)"

subsection \<open>JSON values\<close>

text \<open>
  What \<open>json.loads\<close> returns; records and chat messages are dictionaries of such
  values. \<open>truthy\<close> is Python's truth test, \<open>py_or\<close> the operator \<open>or\<close>.
\<close>

datatype json =
    JNull
  | JBool bool
  | JInt int
  | JFloat real
  | JStr string
  | JList "json list"
  | JDict "(string \<times> json) list"

type_synonym pydict = "string \<rightharpoonup> json"

fun truthy :: "json \<Rightarrow> bool" where
  "truthy JNull = False"
| "truthy (JBool b) = b"
| "truthy (JInt i) = (i \<noteq> 0)"
| "truthy (JFloat x) = (x \<noteq> 0)"
| "truthy (JStr s) = (s \<noteq> [])"
| "truthy (JList xs) = (xs \<noteq> [])"
| "truthy (JDict kvs) = (kvs \<noteq> [])"

definition py_or :: "json \<Rightarrow> json \<Rightarrow> json" where
  "py_or a b = (if truthy a then a else b)"

definition dict_get :: "pydict \<Rightarrow> string \<Rightarrow> json" where
  "dict_get d k = (case d k of None \<Rightarrow> JNull | Some v \<Rightarrow> v)"

subsection \<open>RAGPipeline.embed\_texts\<close>

function embed_loop ::
  "env \<Rightarrow> string list \<Rightarrow> nat \<Rightarrow> real list list \<Rightarrow> world \<Rightarrow> error + (real list list \<times> world)" where
  "embed_loop ev texts i embeddings w =
     (if i < length texts then
        (let batch = take 64 (drop i texts) in
         case embeddings_create ev (length (api_calls w)) batch of
           Inl e \<Rightarrow> Inl e
         | Inr data \<Rightarrow>
             embed_loop ev texts (i + 64) (embeddings @ data)
               (w\<lparr>api_calls := api_calls w @ [batch]\<rparr>))
      else Inr (embeddings, w))"
  by pat_completeness auto
termination
  by (relation "measure (\<lambda>(ev, texts, i, embeddings, w). length texts - i)") auto

declare embed_loop.simps [simp del]

definition embed_texts :: "env \<Rightarrow> string list \<Rightarrow> world \<Rightarrow> error + (real list list \<times> world)" where
  "embed_texts ev texts w = embed_loop ev texts 0 [] w"

subsection \<open>RAGPipeline.ingest\_records\<close>

text \<open>A call either runs forever, raises, or returns.\<close>

datatype 'a outcome = Diverges | Raises error | Returns 'a

text \<open>\<open>rec.get("text") or rec.get("description") or ""\<close>\<close>

definition record_text :: "pydict \<Rightarrow> json" where
  "record_text rec = py_or (py_or (dict_get rec ''text'') (dict_get rec ''description'')) (JStr [])"

text \<open>The inner loop: one \<open>uuid4\<close> draw for each chunk.\<close>

fun append_chunks ::
  "env \<Rightarrow> string list \<Rightarrow> string list \<Rightarrow> string list \<Rightarrow> world \<Rightarrow> string list \<times> string list \<times> world" where
  "append_chunks ev [] chunks ids w = (chunks, ids, w)"
| "append_chunks ev (ch # chs) chunks ids w =
     append_chunks ev chs (chunks @ [ch]) (ids @ [uuid4 ev (uuid_calls w)])
       (w\<lparr>uuid_calls := Suc (uuid_calls w)\<rparr>)"

text \<open>The loop over the records; \<open>chunk_text\<close> is called with its default sizes.\<close>

fun flatten_records ::
  "env \<Rightarrow> pydict list \<Rightarrow> string list \<Rightarrow> string list \<Rightarrow> world \<Rightarrow> (string list \<times> string list \<times> world) option" where
  "flatten_records ev [] chunks ids w = Some (chunks, ids, w)"
| "flatten_records ev (rec # rest) chunks ids w =
     (case record_text rec of
        JStr s \<Rightarrow>
          if strip s = [] then flatten_records ev rest chunks ids w
          else (case chunk_text s 800 120 of
                  None \<Rightarrow> None
                | Some chs \<Rightarrow>
                    (case append_chunks ev chs chunks ids w of
                       (chunks1, ids1, w1) \<Rightarrow> flatten_records ev rest chunks1 ids1 w1))
      | _ \<Rightarrow> flatten_records ev rest chunks ids w)"

text \<open>The loop over \<open>zip(ids, chunks, embeds)\<close>, which stops at the shortest list.\<close>

fun add_all :: "store \<Rightarrow> string \<Rightarrow> (string \<times> string \<times> real list) list \<Rightarrow> store" where
  "add_all self source_name [] = self"
| "add_all self source_name ((doc_id, ch, emb) # rest) =
     add_all (add self doc_id ch source_name emb) source_name rest"

definition ingest_records ::
  "env \<Rightarrow> store \<Rightarrow> world \<Rightarrow> pydict list \<Rightarrow> string \<Rightarrow> (nat \<times> store \<times> world) outcome" where
  "ingest_records ev self w records source_name =
     (case flatten_records ev records [] [] w of
        None \<Rightarrow> Diverges
      | Some (chunks, ids, w1) \<Rightarrow>
          if chunks = [] then Returns (0, self, w1)
          else (case embed_texts ev chunks w1 of
                  Inl e \<Rightarrow> Raises e
                | Inr (embeds, w2) \<Rightarrow>
                    (let self1 = add_all self source_name (zip ids (zip chunks embeds)) in
                     case save ev self1 w2 of
                       Inl e \<Rightarrow> Raises e
                     | Inr w3 \<Rightarrow> Returns (length chunks, self1, w3))))"

subsection \<open>RAGPipeline.build\_prompt\<close>

record message =
  role :: string
  content :: string

definition newline :: string where
  "newline = [CHR 0x0A]"

fun join :: "string \<Rightarrow> string list \<Rightarrow> string" where
  "join sep [] = []"
| "join sep [x] = x"
| "join sep (x # y # ys) = x @ sep @ join sep (y # ys)"

definition context_block :: "item list \<Rightarrow> string" where
  "context_block contexts =
     join (newline @ newline)
       (map (\<lambda>c. ''[Source: '' @ item_source c @ '']'' @ newline @ item_text c) contexts)"

definition system_prompt :: string where
  "system_prompt =
     ''You are a helpful assistant answering questions about medical imaging '' @
     ''and radiology. Use only the provided context. If unsure, say you don'' @ [CHR 0x27] @
     ''t know.''"

definition user_prompt :: "string \<Rightarrow> item list \<Rightarrow> string" where
  "user_prompt query contexts =
     ''Context:'' @ newline @ context_block contexts @ newline @ newline @
     ''Question: '' @ query @ newline"

text \<open>The slice \<open>xs[i:]\<close>.\<close>

definition slice_from :: "'a list \<Rightarrow> int \<Rightarrow> 'a list" where
  "slice_from xs i = drop (clamp_index (int (length xs)) i) xs"

text \<open>
  The test on a history entry: \<open>m.get("role") in ("user", "assistant")\<close> and
  \<open>isinstance(m.get("content"), str)\<close>; \<open>as_message\<close> is the dictionary appended
  for an entry that passes.
\<close>

definition keeps :: "pydict \<Rightarrow> bool" where
  "keeps m =
     ((dict_get m ''role'' = JStr ''user'' \<or> dict_get m ''role'' = JStr ''assistant'') \<and>
      (case dict_get m ''content'' of JStr c \<Rightarrow> True | _ \<Rightarrow> False))"

definition as_message :: "pydict \<Rightarrow> message" where
  "as_message m =
     \<lparr>role = (case dict_get m ''role'' of JStr r \<Rightarrow> r | _ \<Rightarrow> []),
      content = (case dict_get m ''content'' of JStr c \<Rightarrow> c | _ \<Rightarrow> [])\<rparr>"

fun history_loop :: "pydict list \<Rightarrow> message list \<Rightarrow> message list" where
  "history_loop [] messages = messages"
| "history_loop (m # ms) messages =
     history_loop ms (if keeps m then messages @ [as_message m] else messages)"

definition build_prompt :: "string \<Rightarrow> item list \<Rightarrow> pydict list option \<Rightarrow> message list" where
  "build_prompt query contexts history =
     (let messages = [\<lparr>role = ''system'', content = system_prompt\<rparr>];
          messages1 =
            (case history of
               None \<Rightarrow> messages
             | Some h \<Rightarrow> if h \<noteq> [] then history_loop (slice_from h (- 6)) messages else messages)
      in messages1 @ [\<lparr>role = ''user'', content = user_prompt query contexts\<rparr>])"

section \<open>Notions used in the statements\<close>

text \<open>
  The texts \<open>ingest_records\<close> keeps: the extracted text of each record, when it is
  a string that is not empty after trimming.
\<close>

fun valid_texts :: "pydict list \<Rightarrow> string list" where
  "valid_texts [] = []"
| "valid_texts (rec # rest) =
     (case record_text rec of
        JStr s \<Rightarrow> if strip s = [] then valid_texts rest else s # valid_texts rest
      | _ \<Rightarrow> valid_texts rest)"

text \<open>The chunks of one text under the default sizes, and of all kept texts in order.\<close>

definition default_chunks :: "string \<Rightarrow> string list" where
  "default_chunks s = trim_windows s (chunk_spans (int (length s)) 800 120 0)"

definition all_chunks :: "pydict list \<Rightarrow> string list" where
  "all_chunks records = concat (map default_chunks (valid_texts records))"


section \<open>Example data\<close>

definition ex_items :: "item list" where
  "ex_items =
     [\<lparr>item_id = ''a'', item_text = ''north'', item_source = ''s'', embedding = Some [0, 1]\<rparr>,
      \<lparr>item_id = ''b'', item_text = ''east'', item_source = ''s'', embedding = Some [1, 0]\<rparr>,
      \<lparr>item_id = ''c'', item_text = ''east again'', item_source = ''s'', embedding = Some [2, 0]\<rparr>]"



definition ex_history :: "pydict list" where
  "ex_history =
     [[''role'' \<mapsto> JStr ''user'', ''content'' \<mapsto> JStr ''m0''],
      [''role'' \<mapsto> JStr ''assistant'', ''content'' \<mapsto> JStr ''m1''],
      [''role'' \<mapsto> JStr ''user'', ''content'' \<mapsto> JStr ''m2''],
      [''role'' \<mapsto> JStr ''system'', ''content'' \<mapsto> JStr ''m3''],
      [''role'' \<mapsto> JStr ''assistant'', ''content'' \<mapsto> JInt 4],
      [''role'' \<mapsto> JStr ''user'', ''content'' \<mapsto> JStr ''m5''],
      [''content'' \<mapsto> JStr ''m6''],
      [''role'' \<mapsto> JStr ''assistant'', ''content'' \<mapsto> JStr ''m7'']]"

definition ex_contexts :: "item list" where
  "ex_contexts =
     [\<lparr>item_id = ''1'', item_text = ''CT text'', item_source = ''ct.jsonl'', embedding = None\<rparr>,
      \<lparr>item_id = ''2'', item_text = ''MRI text'', item_source = ''mri.jsonl'', embedding = None\<rparr>]"

text \<open>
  Stand-ins for the outside services: a codec that writes the identifiers and reads
  one file text back, an endpoint that answers every text with the same vector, and
  identifiers numbered by their length.
\<close>

definition ex_env :: env where
  "ex_env =
     \<lparr>dumps = (\<lambda>its. concat (map (\<lambda>it. item_id it @ '';'') its)),
      loads = (\<lambda>s. if s = ''a;b;c;'' then Inr ex_items else Inl JSONDecodeError),
      embeddings_create = (\<lambda>n batch. Inr (map (\<lambda>t. [1, 0]) batch)),
      uuid4 = (\<lambda>n. replicate (Suc n) CHR ''u'')\<rparr>"

definition ex_world :: world where
  "ex_world = \<lparr>files = Map.empty, dirs = {[]}, api_calls = [], uuid_calls = 0\<rparr>"

definition ex_store :: store where
  "ex_store = \<lparr>path = [''data'', ''index.json''], items = ex_items\<rparr>"



definition ex_blank_records :: "pydict list" where
  "ex_blank_records =
     [[''text'' \<mapsto> JStr ''   '', ''description'' \<mapsto> JStr ''unused''],
      [''text'' \<mapsto> JInt 7],
      [''title'' \<mapsto> JStr ''no text'']]"

section \<open>Properties of cosine\_similarity\<close>

lemma py_sum_sum_list: "py_sum xs = sum_list xs"
proof -
  have "foldl (+) a xs = a + sum_list xs" for a :: real
    by (induction xs arbitrary: a) (simp_all add: algebra_simps)
  from this [of 0] show ?thesis by (simp add: py_sum_def)
qed

lemma sum_squares_nonneg: "0 \<le> py_sum (map (\<lambda>x. x * x) a)"
  unfolding py_sum_sum_list by (rule sum_list_nonneg) auto

lemma or_eps_pos: "0 \<le> x \<Longrightarrow> 0 < or_eps x"
  by (simp add: or_eps_def)

lemma safe_norm_pos: "0 < safe_norm a"
  unfolding safe_norm_def by (rule or_eps_pos) (simp add: sum_squares_nonneg)

lemma cosine_similarity_value:
  "cosine_similarity a b = Inr (dot_product a b / (safe_norm a * safe_norm b))"
proof -
  have a: "py_sqrt (py_sum (map (\<lambda>x. x * x) a)) = Inr (sqrt (py_sum (map (\<lambda>x. x * x) a)))"
    using sum_squares_nonneg [of a] by (simp add: py_sqrt_def)
  have b: "py_sqrt (py_sum (map (\<lambda>x. x * x) b)) = Inr (sqrt (py_sum (map (\<lambda>x. x * x) b)))"
    using sum_squares_nonneg [of b] by (simp add: py_sqrt_def)
  have nz: "safe_norm a * safe_norm b \<noteq> 0"
    using safe_norm_pos [of a] safe_norm_pos [of b] by simp
  show ?thesis
    using nz by (simp add: cosine_similarity_def a b py_div_def safe_norm_def dot_product_def)
qed

section \<open>Scoring and ranking in search, over the reals\<close>

lemma item_score_total: "item_score q it = Inr (score_val q it)"
  by (simp add: score_val_def item_score_def cosine_similarity_value split: option.splits)

lemma score_all_value:
  "score_all q its scored = Inr (scored @ map (\<lambda>it. (score_val q it, it)) its)"
  by (induction its arbitrary: scored) (simp_all add: item_score_total)

lemma insort_key_map:
  "insort_key h (g x) (map g ys) = map g (insort_key (\<lambda>y. h (g y)) x ys)"
  by (induction ys) simp_all

lemma sort_key_map: "sort_key h (map g xs) = map g (sort_key (\<lambda>y. h (g y)) xs)"
  by (induction xs) (simp_all add: insort_key_map)

lemma slice_to_map: "slice_to (map g xs) k = map g (slice_to xs k)"
  by (simp add: slice_to_def take_map)

lemma search_value:
  "search self q k = Inr (slice_to (sort_desc (score_val q) (items self)) k, self)"
  by (simp add: search_def score_all_value sort_desc_def sort_key_map slice_to_map [symmetric] o_def)




lemma zero_vector_sum: "\<forall>x \<in> set a. x = 0 \<Longrightarrow> py_sum (map (\<lambda>x. x * x) a) = 0"
  unfolding py_sum_sum_list by (induction a) simp_all

section \<open>Python's numbers at exact arithmetic\<close>

lemma sum_of_exact_float:
  assumes "\<forall>x \<in> set xs. f x = Inr (PFloat (g x))"
  shows "sum_of exact_arith f (PFloat s) xs = Inr (PFloat (s + sum_list (map g xs)))"
  using assms
  by (induction xs arbitrary: s) (simp_all add: num_add_def to_float_def exact_arith_def add.assoc)

lemma sum_of_exact:
  assumes "\<forall>x \<in> set xs. f x = Inr (PFloat (g x))"
  shows "\<exists>v. sum_of exact_arith f (PInt 0) xs = Inr v
           \<and> to_float exact_arith v = Inr (sum_list (map g xs))"
proof (cases xs)
  case Nil
  then show ?thesis by (simp add: to_float_def exact_arith_def)
next
  case (Cons x rest)
  have "num_add exact_arith (PInt 0) (PFloat (g x)) = Inr (PFloat (g x))"
    by (simp add: num_add_def to_float_def exact_arith_def)
  moreover have "sum_of exact_arith f (PFloat (g x)) rest
      = Inr (PFloat (g x + sum_list (map g rest)))"
    using assms Cons by (intro sum_of_exact_float) simp
  ultimately show ?thesis using assms Cons by (simp add: to_float_def)
qed

text \<open>
  On lists of floats and with exact arithmetic, the code on Python's numbers is
  \<open>cosine_similarity\<close> over the reals.
\<close>

lemma py_cosine_similarity_exact:
  "py_cosine_similarity exact_arith (map PFloat a) (map PFloat b) = cosine_similarity a b"
proof -
  have m: "num_mul exact_arith (PFloat x) (PFloat y) = Inr (PFloat (x * y))" for x y
    by (simp add: num_mul_def to_float_def exact_arith_def)
  have "\<forall>p \<in> set (zip (map PFloat a) (map PFloat b)).
      (\<lambda>(x, y). num_mul exact_arith x y) p
        = Inr (PFloat ((\<lambda>(x, y). (case x of PFloat u \<Rightarrow> u | PInt n \<Rightarrow> 0) * (case y of PFloat u \<Rightarrow> u | PInt n \<Rightarrow> 0)) p))"
    by (auto simp: m zip_map_map)
  from sum_of_exact [OF this] obtain dot
    where dot: "sum_of exact_arith (\<lambda>(x, y). num_mul exact_arith x y) (PInt 0)
                  (zip (map PFloat a) (map PFloat b)) = Inr dot"
      "to_float exact_arith dot = Inr (sum_list (map (\<lambda>(x, y). x * y) (zip a b)))"
    by (auto simp: zip_map_map o_def split_def)
  have "\<forall>v \<in> set (map PFloat a). num_mul exact_arith v v
      = Inr (PFloat ((\<lambda>v. (case v of PFloat u \<Rightarrow> u * u | PInt n \<Rightarrow> 0)) v))"
    by (auto simp: m)
  from sum_of_exact [OF this] obtain sa
    where sa: "sum_of exact_arith (\<lambda>x. num_mul exact_arith x x) (PInt 0) (map PFloat a) = Inr sa"
      "to_float exact_arith sa = Inr (sum_list (map (\<lambda>x. x * x) a))"
    by (auto simp: o_def)
  have "\<forall>v \<in> set (map PFloat b). num_mul exact_arith v v
      = Inr (PFloat ((\<lambda>v. (case v of PFloat u \<Rightarrow> u * u | PInt n \<Rightarrow> 0)) v))"
    by (auto simp: m)
  from sum_of_exact [OF this] obtain sb
    where sb: "sum_of exact_arith (\<lambda>x. num_mul exact_arith x x) (PInt 0) (map PFloat b) = Inr sb"
      "to_float exact_arith sb = Inr (sum_list (map (\<lambda>x. x * x) b))"
    by (auto simp: o_def)
  have ra: "num_sqrt exact_arith sa = Inr (sqrt (py_sum (map (\<lambda>x. x * x) a)))"
    using sum_squares_nonneg [of a]
    by (simp add: num_sqrt_def sa(2) py_sum_sum_list) (simp add: exact_arith_def)
  have rb: "num_sqrt exact_arith sb = Inr (sqrt (py_sum (map (\<lambda>x. x * x) b)))"
    using sum_squares_nonneg [of b]
    by (simp add: num_sqrt_def sb(2) py_sum_sum_list) (simp add: exact_arith_def)
  have nz: "safe_norm a * safe_norm b \<noteq> 0"
    using safe_norm_pos [of a] safe_norm_pos [of b] by simp
  have e: "or_eps_f exact_arith x = or_eps x" for x
    by (simp add: or_eps_f_def or_eps_def exact_arith_def)
  have d: "num_truediv exact_arith dot (fmul exact_arith (safe_norm a) (safe_norm b))
      = Inr (dot_product a b / (safe_norm a * safe_norm b))"
    using nz by (simp add: num_truediv_def dot(2) dot_product_def py_sum_sum_list)
      (simp add: exact_arith_def)
  have "py_cosine_similarity exact_arith (map PFloat a) (map PFloat b)
      = num_truediv exact_arith dot (fmul exact_arith (safe_norm a) (safe_norm b))"
    by (simp add: py_cosine_similarity_def dot(1) sa(1) sb(1) ra rb Let_def e safe_norm_def)
  then show ?thesis by (simp only: d cosine_similarity_value)
qed

section \<open>Ranking in search, on Python's numbers\<close>

lemma insort_less_insort_key:
  assumes "\<forall>y \<in> set ys. lt (key y) (key x) \<longleftrightarrow> r (key y) < r (key x)"
  shows "insort_less lt key x ys = insort_key (\<lambda>z. r (key z)) x ys"
  using assms by (induction ys) (auto simp: not_less)

lemma sort_less_sort_key:
  assumes "\<forall>x \<in> set xs. \<forall>y \<in> set xs. lt (key x) (key y) \<longleftrightarrow> r (key x) < r (key y)"
  shows "sort_less lt key xs = sort_key (\<lambda>z. r (key z)) xs"
  using assms
proof (induction xs)
  case Nil
  then show ?case by (simp add: sort_less_def)
next
  case (Cons x xs)
  have ih: "sort_less lt key xs = sort_key (\<lambda>z. r (key z)) xs"
    using Cons.prems by (intro Cons.IH) simp
  have "insort_less lt key x (sort_key (\<lambda>z. r (key z)) xs)
      = insort_key (\<lambda>z. r (key z)) x (sort_key (\<lambda>z. r (key z)) xs)"
    using Cons.prems by (intro insort_less_insort_key) simp
  with ih show ?case by (simp add: sort_less_def)
qed

lemma py_score_all_value:
  assumes "\<forall>it \<in> set its. py_item_score fp g q it = Inr (sc it)"
  shows "py_score_all fp g q its scored = Inr (scored @ map (\<lambda>it. (sc it, it)) its)"
  using assms by (induction its arbitrary: scored) simp_all

lemma sort_reverse_scored:
  assumes "\<forall>x \<in> set its. \<forall>y \<in> set its. lt (sc x) (sc y) \<longleftrightarrow> r (sc x) < r (sc y)"
  shows "map snd (sort_reverse lt fst (map (\<lambda>it. (sc it, it)) its))
       = rev (sort_key (\<lambda>it. r (sc it)) (rev its))"
proof -
  let ?h = "\<lambda>it. (sc it, it)"
  have "sort_less lt fst (rev (map ?h its)) = sort_key (\<lambda>p. r (fst p)) (rev (map ?h its))"
    using assms by (intro sort_less_sort_key) auto
  also have "\<dots> = map ?h (sort_key (\<lambda>it. r (sc it)) (rev its))"
    by (simp add: rev_map sort_key_map)
  finally show ?thesis by (simp add: sort_reverse_def rev_map o_def)
qed

lemma rev_sort_key_mset: "mset (rev (sort_key f (rev xs))) = mset xs"
  by simp

lemma rev_sort_key_sorted: "sorted_wrt (\<lambda>x y. f y \<le> f x) (rev (sort_key f (rev xs)))"
proof -
  have "sorted (map f (sort_key f (rev xs)))" by (rule sorted_sort_key)
  then have "sorted_wrt (\<lambda>x y. f x \<le> f y) (sort_key f (rev xs))"
    by (simp add: sorted_map)
  then show ?thesis by (simp add: sorted_wrt_rev)
qed

lemma rev_sort_key_stable:
  "filter (\<lambda>x. f x = s) (rev (sort_key f (rev xs))) = filter (\<lambda>x. f x = s) xs"
proof -
  have "filter (\<lambda>x. f x = s) (sort_key f (rev xs)) = filter (\<lambda>x. f x = s) (rev xs)"
    by (rule sort_key_stable)
  then show ?thesis by (simp add: rev_filter [symmetric])
qed


lemma py_search_value:
  assumes sc: "\<forall>it \<in> set its. py_item_score fp g q it = Inr (sc it)"
    and ord: "\<forall>x \<in> set its. \<forall>y \<in> set its.
        fless fp (sc x) (sc y) \<longleftrightarrow> (r (sc x) :: 'r :: linorder) < r (sc y)"
  shows "py_search fp g its q k = Inr (slice_to (rev (sort_key (\<lambda>it. r (sc it)) (rev its))) k)"
  using sort_reverse_scored [of its "fless fp" sc r, OF ord]
  by (simp add: py_search_def py_score_all_value [OF sc] slice_to_map [symmetric])



text \<open>
  C5. \<open>cosine_similarity\<close> is not total: on the int vector \<open>[10**200]\<close> the sum of
  squares is the int \<open>10**400\<close>, which \<open>math.sqrt\<close> cannot convert to a float, whatever
  the float arithmetic does.
\<close>

theorem py_cosine_similarity_overflow:
  "py_cosine_similarity fp [PInt (10 ^ 200)] [PInt 1] = Inl OverflowError"
  by (simp add: py_cosine_similarity_def num_mul_def num_add_def num_sqrt_def to_float_def)






lemma sort_desc_rev: "sort_desc f xs = rev (sort_key f (rev xs))"
  unfolding sort_desc_def
proof (rule properties_for_sort_key)
  show "mset (rev (sort_key f (rev xs))) = mset xs" by simp
  show "filter (\<lambda>x. - f k = - f x) (rev (sort_key f (rev xs))) = filter (\<lambda>x. - f k = - f x) xs" for k
    using rev_sort_key_stable [of f "f k" xs] by (simp add: eq_commute)
  have "sorted_wrt (\<lambda>x y. f y \<le> f x) (rev (sort_key f (rev xs)))"
    by (rule rev_sort_key_sorted)
  then show "sorted (map (\<lambda>x. - f x) (rev (sort_key f (rev xs))))"
    by (simp add: sorted_map)
qed

text \<open>
  On embeddings that are lists of floats and with exact arithmetic, the code on
  Python's numbers is \<open>search\<close> over the reals.
\<close>

lemma py_search_exact:
  "\<exists>res. py_search exact_arith (\<lambda>it. map_option (map PFloat) (embedding it)) (items self)
             (map PFloat q) k = Inr res
         \<and> search self q k = Inr (res, self)"
proof -
  let ?g = "\<lambda>it. map_option (map PFloat) (embedding it)"
  have z: "fzero exact_arith = 0" by (simp add: exact_arith_def)
  have sc: "\<forall>it \<in> set (items self).
      py_item_score exact_arith ?g (map PFloat q) it = Inr (score_val q it)"
    by (auto simp: py_item_score_def py_cosine_similarity_exact item_score_total [symmetric]
        item_score_def z split: option.splits)
  have ord: "\<forall>x \<in> set (items self). \<forall>y \<in> set (items self).
      fless exact_arith (score_val q x) (score_val q y) \<longleftrightarrow> score_val q x < score_val q y"
    by (simp add: exact_arith_def)
  show ?thesis
    unfolding py_search_value [OF sc, of "\<lambda>x. x", OF ord] search_value sort_desc_rev
    by simp
qed

section \<open>Vectors of different lengths\<close>

lemma zip_take_min: "zip (take (min (length a) (length b)) a) (take (min (length a) (length b)) b) = zip a b"
  by (simp add: take_zip [symmetric])

lemma dot_product_truncated:
  "dot_product (take (min (length a) (length b)) a) (take (min (length a) (length b)) b) = dot_product a b"
  by (simp add: dot_product_def zip_take_min)

lemma safe_norm_zero_tail:
  assumes "\<forall>x \<in> set (drop n a). x = 0"
  shows "safe_norm (take n a) = safe_norm a"
proof -
  have "py_sum (map (\<lambda>x. x * x) a)
      = py_sum (map (\<lambda>x. x * x) (take n a)) + py_sum (map (\<lambda>x. x * x) (drop n a))"
    unfolding py_sum_sum_list by (metis append_take_drop_id map_append sum_list_append)
  with zero_vector_sum [OF assms] show ?thesis by (simp add: safe_norm_def)
qed

text \<open>
  C7 (as amended). In \<open>cosine_similarity\<close> only the dot product is cut to the common
  prefix of the two vectors; each norm is taken over the whole vector. The result is
  that of the truncated vectors when the elements beyond the common prefix are all
  zero.
\<close>

theorem cosine_mismatched_lengths:
  "cosine_similarity a b
     = Inr (dot_product (take (min (length a) (length b)) a) (take (min (length a) (length b)) b)
            / (safe_norm a * safe_norm b))
   \<and> ((\<forall>x \<in> set (drop (min (length a) (length b)) a). x = 0)
        \<and> (\<forall>y \<in> set (drop (min (length a) (length b)) b). y = 0)
      \<longrightarrow> cosine_similarity a b
            = cosine_similarity (take (min (length a) (length b)) a) (take (min (length a) (length b)) b))"
proof -
  let ?n = "min (length a) (length b)"
  have "cosine_similarity a b = cosine_similarity (take ?n a) (take ?n b)"
    if "\<forall>x \<in> set (drop ?n a). x = 0" and "\<forall>y \<in> set (drop ?n b). y = 0"
    using that
    by (simp only: cosine_similarity_value dot_product_truncated [of a b] safe_norm_zero_tail
        length_take min.idem min.assoc take_all order_refl min.cobounded1 min.cobounded2)
  then show ?thesis
    by (simp only: cosine_similarity_value dot_product_truncated) blast
qed

lemma sqrt25: "sqrt 25 = 5"
  using real_sqrt_abs [of 5] by simp

lemma sqrt9: "sqrt 9 = 3"
  using real_sqrt_abs [of 3] by simp

theorem cosine_mismatched_lengths_witness:
  "cosine_similarity [3, 0] [3] = Inr 1 \<and> cosine_similarity [3, 0] [3] = cosine_similarity [3] [3]"
proof -
  have v: "cosine_similarity [3] [3] = Inr 1"
    by (simp add: cosine_similarity_value dot_product_def safe_norm_def py_sum_def or_eps_def sqrt9)
  have "cosine_similarity [3, 0] [3] = cosine_similarity [3] [3]"
    using cosine_mismatched_lengths [of "[3, 0]" "[3]", THEN conjunct2] by simp
  with v show ?thesis by simp
qed

text \<open>
  C7 as stated fails: for \<open>[3, 4]\<close> and \<open>[1]\<close> the result is \<open>3/5\<close>, for the
  truncated vectors \<open>[3]\<close> and \<open>[1]\<close> it is \<open>1\<close>.
\<close>

theorem cosine_truncation_counterexample:
  "cosine_similarity [3, 4] [1]
     \<noteq> cosine_similarity (take (min (length [3, 4 :: real]) (length [1 :: real])) [3, 4])
          (take (min (length [3, 4 :: real]) (length [1 :: real])) [1])"
  by (simp add: cosine_similarity_value dot_product_def safe_norm_def py_sum_def or_eps_def
      sqrt25 sqrt9)

section \<open>search leaves the store alone\<close>

text \<open>
  C9. For every store, query vector and \<open>k\<close>, \<open>search\<close> returns, and the store
  after the call is the store before it. The backing file is not among the things
  \<open>search\<close> can reach.
\<close>

theorem search_leaves_store:
  "\<exists>res. search self q k = Inr (res, self)"
  by (simp add: search_value)

section \<open>chunk\_text: the loop and its windows\<close>

lemma slice_in_range:
  "0 \<le> s \<Longrightarrow> s \<le> e \<Longrightarrow> e \<le> int (length xs)
     \<Longrightarrow> slice xs s e = take (nat e - nat s) (drop (nat s) xs)"
  by (simp add: slice_def clamp_index_def Let_def min_def)

lemma length_slice_in_range:
  "0 \<le> s \<Longrightarrow> s \<le> e \<Longrightarrow> e \<le> int (length xs) \<Longrightarrow> int (length (slice xs s e)) = e - s"
  by (simp add: slice_in_range)

lemma length_slice_le: "s \<le> e \<Longrightarrow> int (length (slice xs s e)) \<le> e - s"
  by (auto simp add: slice_def clamp_index_def Let_def min_def max_def)

lemma length_strip_le: "length (strip s) \<le> length s"
proof -
  have "length (dropWhile P xs) \<le> length xs" for P and xs :: "'a list"
    by (induction xs) simp_all
  from this [of is_space "rev (dropWhile is_space s)"] this [of is_space s]
  show ?thesis by (simp add: strip_def)
qed

lemma chunk_spans_step:
  assumes "1 \<le> C" "0 \<le> ov" "ov < C" "0 \<le> start" "start + C < n"
  shows "chunk_spans n C ov start = (start, start + C) # chunk_spans n C ov (start + C - ov)"
  using assms by (subst chunk_spans.simps) (simp add: Let_def min_def)

lemma chunk_spans_last:
  assumes "start < n" "n \<le> start + C"
  shows "chunk_spans n C ov start = [(start, n)]"
  using assms by (subst chunk_spans.simps) (simp add: Let_def min_def)

lemma chunk_spans_done:
  assumes "n \<le> start"
  shows "chunk_spans n C ov start = []"
  using assms by (subst chunk_spans.simps) simp

lemma chunk_loop_step:
  assumes "1 \<le> C" "0 \<le> ov" "ov < C" "0 \<le> start" "start + C < int (length txt)"
  shows "chunk_loop txt C ov start chunks
       = chunk_loop txt C ov (start + C - ov) (chunks @ trim_windows txt [(start, start + C)])"
  using assms by (subst chunk_loop.simps) (simp add: Let_def min_def trim_windows_def)

lemma chunk_loop_last:
  assumes "start < int (length txt)" "int (length txt) \<le> start + C"
  shows "chunk_loop txt C ov start chunks = Some (chunks @ trim_windows txt [(start, int (length txt))])"
  using assms by (subst chunk_loop.simps) (simp add: Let_def min_def trim_windows_def)

lemma chunk_loop_done:
  assumes "int (length txt) \<le> start"
  shows "chunk_loop txt C ov start chunks = Some chunks"
  using assms by (subst chunk_loop.simps) simp

lemma good_induct [consumes 4, case_names finished final step]:
  assumes "1 \<le> C" "0 \<le> ov" "ov < C" "0 \<le> start"
    and fin: "\<And>start. 0 \<le> start \<Longrightarrow> n \<le> start \<Longrightarrow> P start"
    and lst: "\<And>start. 0 \<le> start \<Longrightarrow> start < n \<Longrightarrow> n \<le> start + C \<Longrightarrow> P start"
    and stp: "\<And>start. 0 \<le> start \<Longrightarrow> start + C < n \<Longrightarrow> P (start + C - ov) \<Longrightarrow> P start"
  shows "P (start :: int)"
  using assms(4)
proof (induction "nat (n - start)" arbitrary: start rule: less_induct)
  case less
  show ?case
  proof (cases "n \<le> start")
    case True
    with less.prems show ?thesis by (rule fin)
  next
    case False
    show ?thesis
    proof (cases "n \<le> start + C")
      case True
      from less.prems have "0 \<le> start" .
      moreover from False have "start < n" by simp
      ultimately show ?thesis using True by (rule lst)
    next
      case False
      have a: "nat (n - (start + C - ov)) < nat (n - start)"
        using assms(1-3) less.prems False by simp
      have b: "0 \<le> start + C - ov"
        using assms(1-3) less.prems by simp
      have c: "P (start + C - ov)"
        using a b by (rule less.hyps)
      from False have d: "start + C < n" by simp
      from less.prems d c show ?thesis by (rule stp)
    qed
  qed
qed

lemma chunk_loop_spans:
  assumes "1 \<le> C" "0 \<le> ov" "ov < C" "0 \<le> start"
  shows "chunk_loop txt C ov start chunks
       = Some (chunks @ trim_windows txt (chunk_spans (int (length txt)) C ov start))"
  using assms
proof (induction start arbitrary: chunks rule: good_induct [where n = "int (length txt)"])
  case (finished start)
  then show ?case by (simp add: chunk_loop_done chunk_spans_done trim_windows_def)
next
  case (final start)
  then show ?case by (simp add: chunk_loop_last chunk_spans_last)
next
  case (step start)
  have l: "chunk_loop txt C ov start chunks
      = chunk_loop txt C ov (start + C - ov) (chunks @ trim_windows txt [(start, start + C)])"
    using assms(1-3) step.hyps by (rule chunk_loop_step)
  have s: "chunk_spans (int (length txt)) C ov start
      = (start, start + C) # chunk_spans (int (length txt)) C ov (start + C - ov)"
    using assms(1-3) step.hyps by (rule chunk_spans_step)
  have "chunk_loop txt C ov start chunks
      = Some ((chunks @ trim_windows txt [(start, start + C)])
              @ trim_windows txt (chunk_spans (int (length txt)) C ov (start + C - ov)))"
    by (simp only: l step.IH)
  also have "\<dots> = Some (chunks @ trim_windows txt
              ((start, start + C) # chunk_spans (int (length txt)) C ov (start + C - ov)))"
    by (simp add: trim_windows_def)
  finally show ?case by (simp only: s)
qed


lemma chunk_spans_hd:
  assumes "1 \<le> C" "0 \<le> ov" "ov < C" "0 \<le> start" "start < n"
  shows "chunk_spans n C ov start \<noteq> [] \<and> hd (chunk_spans n C ov start) = (start, min (start + C) n)"
proof (cases "n \<le> start + C")
  case True
  with assms show ?thesis by (simp add: chunk_spans_last)
next
  case False
  with assms show ?thesis by (simp add: chunk_spans_step)
qed

lemma chunk_spans_bounds:
  assumes "1 \<le> C" "0 \<le> ov" "ov < C" "0 \<le> start"
  shows "\<forall>(s, e) \<in> set (chunk_spans n C ov start). start \<le> s \<and> s < e \<and> e \<le> n \<and> e - s \<le> C"
  using assms
proof (induction start rule: good_induct [where n = n])
  case (finished start)
  then show ?case by (simp add: chunk_spans_done)
next
  case (final start)
  then show ?case by (simp add: chunk_spans_last)
next
  case (step start)
  have s: "chunk_spans n C ov start = (start, start + C) # chunk_spans n C ov (start + C - ov)"
    using assms(1-3) step.hyps by (rule chunk_spans_step)
  show ?case
    unfolding s using assms(1-3) step.hyps step.IH by auto
qed

lemma chunk_spans_end:
  assumes "1 \<le> C" "0 \<le> ov" "ov < C" "0 \<le> start"
  shows "start < n \<Longrightarrow> snd (last (chunk_spans n C ov start)) = n"
  using assms
proof (induction start rule: good_induct [where n = n])
  case (finished start)
  then show ?case by simp
next
  case (final start)
  then show ?case by (simp add: chunk_spans_last)
next
  case (step start)
  have s: "chunk_spans n C ov start = (start, start + C) # chunk_spans n C ov (start + C - ov)"
    using assms(1-3) step.hyps by (rule chunk_spans_step)
  have lt: "start + C - ov < n" using assms(1-3) step.hyps by simp
  have ne: "chunk_spans n C ov (start + C - ov) \<noteq> []"
    using chunk_spans_hd [OF assms(1-3) _ lt] assms(1-3) step.hyps by simp
  show ?case
    unfolding s using ne step.IH [OF lt] by simp
qed

lemma chunk_spans_successively:
  assumes "1 \<le> C" "0 \<le> ov" "ov < C" "0 \<le> start"
  shows "successively (\<lambda>(s, e) (s', e'). e = s + C \<and> s' = e - ov \<and> e \<le> e') (chunk_spans n C ov start)"
  using assms
proof (induction start rule: good_induct [where n = n])
  case (finished start)
  then show ?case by (simp add: chunk_spans_done)
next
  case (final start)
  then show ?case by (simp add: chunk_spans_last)
next
  case (step start)
  have s: "chunk_spans n C ov start = (start, start + C) # chunk_spans n C ov (start + C - ov)"
    using assms(1-3) step.hyps by (rule chunk_spans_step)
  have lt: "start + C - ov < n" using assms(1-3) step.hyps by simp
  have hd: "chunk_spans n C ov (start + C - ov) \<noteq> []"
      "hd (chunk_spans n C ov (start + C - ov)) = (start + C - ov, min (start + C - ov + C) n)"
    using chunk_spans_hd [OF assms(1-3) _ lt] assms(1-3) step.hyps by simp_all
  show ?case
    unfolding s using hd step.IH assms(1-3) step.hyps by (simp add: successively_Cons)
qed

lemma chunk_spans_increasing:
  assumes "1 \<le> C" "0 \<le> ov" "ov < C" "0 \<le> start"
  shows "sorted_wrt (<) (map fst (chunk_spans n C ov start))"
  using assms
proof (induction start rule: good_induct [where n = n])
  case (finished start)
  then show ?case by (simp add: chunk_spans_done)
next
  case (final start)
  then show ?case by (simp add: chunk_spans_last)
next
  case (step start)
  have s: "chunk_spans n C ov start = (start, start + C) # chunk_spans n C ov (start + C - ov)"
    using assms(1-3) step.hyps by (rule chunk_spans_step)
  have b: "\<forall>(s, e) \<in> set (chunk_spans n C ov (start + C - ov)). start + C - ov \<le> s \<and> s < e \<and> e \<le> n \<and> e - s \<le> C"
    using assms(1-3) step.hyps by (intro chunk_spans_bounds) simp_all
  show ?case
    unfolding s using b step.IH assms(1-3) by fastforce
qed

lemma concat_drop_rejoin:
  "ws \<noteq> [] \<Longrightarrow> k \<le> length (hd ws) \<Longrightarrow> concat (map (drop k) ws) = drop k (rejoin k ws)"
  by (cases ws) simp_all

lemma chunk_spans_cover:
  assumes "1 \<le> C" "0 \<le> ov" "ov < C" "0 \<le> start"
  shows "rejoin (nat ov) (map (\<lambda>(s, e). slice txt s e) (chunk_spans (int (length txt)) C ov start))
       = drop (nat start) txt"
  using assms
proof (induction start rule: good_induct [where n = "int (length txt)"])
  case (finished start)
  then show ?case by (simp add: chunk_spans_done)
next
  case (final start)
  then show ?case by (simp add: chunk_spans_last slice_in_range)
next
  case (step start)
  let ?n = "int (length txt)"
  let ?rest = "chunk_spans ?n C ov (start + C - ov)"
  let ?ws = "map (\<lambda>(s, e). slice txt s e) ?rest"
  have s: "chunk_spans ?n C ov start = (start, start + C) # ?rest"
    using assms(1-3) step.hyps by (rule chunk_spans_step)
  have lt: "start + C - ov < ?n" using assms(1-3) step.hyps by simp
  have hd: "?rest \<noteq> []" "hd ?rest = (start + C - ov, min (start + C - ov + C) ?n)"
    using chunk_spans_hd [OF assms(1-3) _ lt] assms(1-3) step.hyps by simp_all
  have hdw: "hd ?ws = slice txt (start + C - ov) (min (start + C - ov + C) ?n)"
    using hd by (simp add: hd_map)
  have len: "nat ov \<le> length (hd ?ws)"
    unfolding hdw using assms(1-3) step.hyps
    by (subst slice_in_range) (auto simp: min_def)
  have "concat (map (drop (nat ov)) ?ws) = drop (nat ov) (rejoin (nat ov) ?ws)"
    using hd(1) len by (intro concat_drop_rejoin) simp_all
  also have "\<dots> = drop (nat ov) (drop (nat (start + C - ov)) txt)"
    by (simp only: step.IH)
  also have "\<dots> = drop (nat (start + C)) txt"
    using assms(1-3) step.hyps by (simp add: nat_diff_distrib nat_add_distrib)
  finally have tail: "concat (map (drop (nat ov)) ?ws) = drop (nat (start + C)) txt" .
  have first: "slice txt start (start + C) = take (nat (start + C) - nat start) (drop (nat start) txt)"
    using assms(1-3) step.hyps by (intro slice_in_range) simp_all
  have "rejoin (nat ov) (map (\<lambda>(s, e). slice txt s e) (chunk_spans ?n C ov start))
      = slice txt start (start + C) @ concat (map (drop (nat ov)) ?ws)"
    unfolding s by simp
  also have "\<dots> = take (nat (start + C) - nat start) (drop (nat start) txt)
                   @ drop (nat (start + C) - nat start) (drop (nat start) txt)"
    unfolding tail first using assms(1-3) step.hyps by simp
  also have "\<dots> = drop (nat start) txt" by (rule append_take_drop_id)
  finally show ?case .
qed

lemma trim_windows_length:
  assumes "\<forall>(s, e) \<in> set spans. s \<le> e \<and> e - s \<le> C"
  shows "\<forall>c \<in> set (trim_windows txt spans). int (length c) \<le> C"
proof
  fix c assume "c \<in> set (trim_windows txt spans)"
  then obtain s e where se: "(s, e) \<in> set spans" and c: "c = strip (slice txt s e)"
    by (auto simp: trim_windows_def)
  from se assms have b: "s \<le> e" "e - s \<le> C" by auto
  have "int (length c) \<le> int (length (slice txt s e))"
    unfolding c using length_strip_le [of "slice txt s e"] by simp
  also have "\<dots> \<le> e - s" using b(1) by (rule length_slice_le)
  finally show "int (length c) \<le> C" using b(2) by simp
qed

lemma chunk_loop_stall_aux:
  assumes "chunk_loop t C ov start chunks = Some y"
  shows "\<not> (1 \<le> C \<and> C \<le> ov \<and> C < int (length t) \<and> start = 0)"
proof (rule chunk_loop.raw_induct [OF _ assms])
  fix loop :: "string \<Rightarrow> int \<Rightarrow> int \<Rightarrow> int \<Rightarrow> string list \<Rightarrow> string list option"
    and t :: string and C ov start :: int and chunks y :: "string list"
  assume IH: "\<And>t C ov start chunks y. loop t C ov start chunks = Some y
      \<Longrightarrow> \<not> (1 \<le> C \<and> C \<le> ov \<and> C < int (length t) \<and> start = 0)"
  assume body: "(let n = int (length t) in
      if start < n then
        (let end = min (start + C) n;
             chunk = strip (slice t start end);
             chunks1 = (if chunk \<noteq> [] then chunks @ [chunk] else chunks)
         in if end = n then Some chunks1
            else (let start1 = end - ov;
                      start2 = (if start1 < 0 then 0 else start1)
                  in loop t C ov start2 chunks1))
      else Some chunks) = Some y"
  show "\<not> (1 \<le> C \<and> C \<le> ov \<and> C < int (length t) \<and> start = 0)"
  proof
    assume a: "1 \<le> C \<and> C \<le> ov \<and> C < int (length t) \<and> start = 0"
    with body obtain chunks1 where c: "loop t C ov 0 chunks1 = Some y"
      by (auto simp: Let_def min_def split: if_splits)
    from IH [OF c] a show False by simp
  qed
qed

lemma chunk_loop_stalls:
  assumes "1 \<le> C" "C \<le> ov" "C < int (length t)"
  shows "chunk_loop t C ov 0 chunks = None"
proof (cases "chunk_loop t C ov 0 chunks")
  case None
  then show ?thesis .
next
  case (Some y)
  from chunk_loop_stall_aux [OF this] assms show ?thesis by simp
qed


lemma chunk_text_value:
  assumes "1 \<le> C" "0 \<le> ov" "ov < C"
  shows "chunk_text t C ov = Some (trim_windows t (chunk_spans (int (length t)) C ov 0))"
  using chunk_loop_spans [OF assms, of 0 t "[]"] by (simp add: chunk_text_def)

text \<open>
  C2 (as amended). For \<open>chunk_size = C \<ge> 1\<close> and \<open>0 \<le> overlap < C\<close>, \<open>chunk_text\<close>
  returns the windows \<open>[start, end)\<close> of the text, each trimmed of whitespace at both
  ends and dropped when nothing is left. The windows, before trimming, cover the
  text end to end; each window has at most \<open>C\<close> characters; every window but the
  last has exactly \<open>C\<close>, and the next one starts \<open>overlap\<close> characters before its end.
  Every chunk returned has at most \<open>C\<close> characters.
\<close>

theorem chunk_text_windows:
  assumes "1 \<le> C" "0 \<le> ov" "ov < C"
  shows "chunk_text t C ov = Some (trim_windows t (chunk_spans (int (length t)) C ov 0))
       \<and> rejoin (nat ov) (map (\<lambda>(s, e). slice t s e) (chunk_spans (int (length t)) C ov 0)) = t
       \<and> (\<forall>(s, e) \<in> set (chunk_spans (int (length t)) C ov 0).
             0 \<le> s \<and> s < e \<and> e \<le> int (length t) \<and> e - s \<le> C
             \<and> int (length (slice t s e)) = e - s)
       \<and> successively (\<lambda>(s, e) (s', e'). e = s + C \<and> s' = e - ov \<and> e \<le> e')
             (chunk_spans (int (length t)) C ov 0)
       \<and> (\<forall>c \<in> set (trim_windows t (chunk_spans (int (length t)) C ov 0)). int (length c) \<le> C)"
proof -
  let ?spans = "chunk_spans (int (length t)) C ov 0"
  have b0: "\<forall>(s, e) \<in> set ?spans. 0 \<le> s \<and> s < e \<and> e \<le> int (length t) \<and> e - s \<le> C"
    using assms by (intro chunk_spans_bounds) simp_all
  then have b: "\<forall>(s, e) \<in> set ?spans. 0 \<le> s \<and> s < e \<and> e \<le> int (length t) \<and> e - s \<le> C
      \<and> int (length (slice t s e)) = e - s"
    by (auto simp: length_slice_in_range)
  have c: "rejoin (nat ov) (map (\<lambda>(s, e). slice t s e) ?spans) = t"
    using chunk_spans_cover [OF assms, of 0 t] by simp
  have d: "successively (\<lambda>(s, e) (s', e'). e = s + C \<and> s' = e - ov \<and> e \<le> e') ?spans"
    using assms by (intro chunk_spans_successively) simp_all
  have "\<forall>(s, e) \<in> set ?spans. s \<le> e \<and> e - s \<le> C" using b by fastforce
  then have e: "\<forall>c \<in> set (trim_windows t ?spans). int (length c) \<le> C"
    by (rule trim_windows_length)
  from chunk_text_value [OF assms] b c d e show ?thesis by blast
qed

lemma chunk_text_hello:
  "chunk_text ''hello world'' 4 1 = Some [''hell'', ''lo w'', ''worl'', ''ld'']"
  by (simp add: chunk_text_def chunk_loop.simps slice_def clamp_index_def strip_def is_space_def Let_def)

theorem chunk_text_windows_witness:
  "chunk_text ''hello world'' 4 1 = Some [''hell'', ''lo w'', ''worl'', ''ld'']
   \<and> chunk_text ''hello world'' 4 1
       = Some (trim_windows ''hello world'' (chunk_spans (int (length ''hello world'')) 4 1 0))
   \<and> rejoin (nat 1) (map (\<lambda>(s, e). slice ''hello world'' s e)
        (chunk_spans (int (length ''hello world'')) 4 1 0)) = ''hello world''"
proof -
  have h: "(1::int) \<le> 4" "(0::int) \<le> 1" "(1::int) < 4" by simp_all
  from chunk_text_windows [OF h, of "''hello world''"] chunk_text_hello
  show ?thesis by blast
qed

text \<open>
  C2 as stated fails on the chunks returned: with \<open>chunk_size = 2\<close> and
  \<open>overlap = 0\<close> the text \<open>a b\<close> gives the chunks \<open>a\<close> and \<open>b\<close>, which do not
  cover the text: the space is trimmed away.
\<close>

theorem chunk_text_cover_counterexample:
  "chunk_text ''a b'' 2 0 = Some [''a'', ''b''] \<and> rejoin (nat 0) [''a'', ''b''] \<noteq> ''a b''"
  by (simp add: chunk_text_def chunk_loop.simps slice_def clamp_index_def strip_def is_space_def Let_def)

text \<open>
  C4. For \<open>chunk_size = C \<ge> 1\<close> and \<open>0 \<le> overlap < C\<close> the loop of \<open>chunk_text\<close>
  returns: the start offsets of its windows increase strictly and the last window
  ends at the end of the text. Nothing guards \<open>overlap \<ge> chunk_size\<close>: there, on a
  text longer than \<open>chunk_size\<close>, the loop never returns.
\<close>

theorem chunk_text_terminates:
  "(1 \<le> C \<and> 0 \<le> ov \<and> ov < C \<longrightarrow>
      (\<exists>chunks. chunk_text t C ov = Some chunks)
      \<and> chunk_text t C ov = Some (trim_windows t (chunk_spans (int (length t)) C ov 0))
      \<and> sorted_wrt (<) (map fst (chunk_spans (int (length t)) C ov 0))
      \<and> (t \<noteq> [] \<longrightarrow> snd (last (chunk_spans (int (length t)) C ov 0)) = int (length t)))
   \<and> (1 \<le> C \<and> C \<le> ov \<and> C < int (length t) \<longrightarrow> chunk_text t C ov = None)"
proof -
  have stall: "chunk_text t C ov = None" if "1 \<le> C \<and> C \<le> ov \<and> C < int (length t)"
    using that by (simp add: chunk_text_def chunk_loop_stalls)
  have good: "(\<exists>chunks. chunk_text t C ov = Some chunks)
      \<and> chunk_text t C ov = Some (trim_windows t (chunk_spans (int (length t)) C ov 0))
      \<and> sorted_wrt (<) (map fst (chunk_spans (int (length t)) C ov 0))
      \<and> (t \<noteq> [] \<longrightarrow> snd (last (chunk_spans (int (length t)) C ov 0)) = int (length t))"
    if g: "1 \<le> C \<and> 0 \<le> ov \<and> ov < C"
  proof -
    from g have a: "1 \<le> C" "0 \<le> ov" "ov < C" by simp_all
    have i: "sorted_wrt (<) (map fst (chunk_spans (int (length t)) C ov 0))"
      using a by (intro chunk_spans_increasing) simp_all
    have l: "snd (last (chunk_spans (int (length t)) C ov 0)) = int (length t)" if "t \<noteq> []"
      using a that by (intro chunk_spans_end) simp_all
    from chunk_text_value [OF a] i l show ?thesis by simp
  qed
  from stall good show ?thesis by blast
qed

theorem chunk_text_terminates_witness:
  "chunk_text ''hello world'' 4 1 = Some [''hell'', ''lo w'', ''worl'', ''ld'']
   \<and> chunk_text ''hello world'' 1 1 = None
   \<and> chunk_text ''hello world'' 4 7 = None"
proof -
  have a: "(1::int) \<le> 4 \<and> (0::int) \<le> 1 \<and> (1::int) < 4" by simp
  have b: "(1::int) \<le> 1 \<and> (1::int) \<le> 1 \<and> 1 < int (length ''hello world'')" by simp
  have c: "(1::int) \<le> 4 \<and> (4::int) \<le> 7 \<and> 4 < int (length ''hello world'')" by simp
  from chunk_text_terminates [of 4 1 "''hello world''"] a
    chunk_text_terminates [of 1 1 "''hello world''"] b
    chunk_text_terminates [of 4 7 "''hello world''"] c
    chunk_text_hello
  show ?thesis by blast
qed

section \<open>build\_prompt\<close>

lemma history_loop_append:
  "history_loop h messages = messages @ map as_message (filter keeps h)"
  by (induction h arbitrary: messages) simp_all

lemma slice_from_last6: "slice_from h (- 6) = drop (length h - 6) h"
  by (simp add: slice_from_def clamp_index_def max_def nat_diff_distrib)

lemma keeps_role:
  assumes "keeps m"
  shows "(role (as_message m) = ''user'' \<or> role (as_message m) = ''assistant'')
       \<and> dict_get m ''role'' = JStr (role (as_message m))
       \<and> dict_get m ''content'' = JStr (content (as_message m))"
  using assms by (auto simp: keeps_def as_message_def split: json.splits)

lemma keeps_iff:
  "keeps m \<longleftrightarrow>
     (m ''role'' = Some (JStr ''user'') \<or> m ''role'' = Some (JStr ''assistant''))
     \<and> (\<exists>c. m ''content'' = Some (JStr c))"
  by (auto simp: keeps_def dict_get_def split: option.splits json.splits)

lemma join_explicit:
  "join sep xs = (case xs of [] \<Rightarrow> [] | x # rest \<Rightarrow> x @ concat (map (\<lambda>y. sep @ y) rest))"
  by (induction sep xs rule: join.induct) simp_all

lemma join_sublist: "x \<in> set xs \<Longrightarrow> sublist x (join sep xs)"
proof (induction sep xs rule: join.induct)
  case (3 sep y z zs)
  show ?case
  proof (cases "x = y")
    case True
    then show ?thesis by simp
  next
    case False
    with 3 have "sublist x (join sep (z # zs))" by simp
    then obtain ps ss where "join sep (z # zs) = ps @ x @ ss" by (auto simp: sublist_def)
    then have "join sep (y # z # zs) = (y @ sep @ ps) @ x @ ss" by simp
    then show ?thesis unfolding sublist_def by blast
  qed
qed simp_all

text \<open>
  C8. For every query, context list and history (absent, empty or not),
  \<open>build_prompt\<close> returns the system message, then at most 6 messages, then the user
  message. The messages in between are the entries among the last 6 of the history
  whose role is \<open>user\<close> or \<open>assistant\<close> and whose content is a string, in their order,
  each with that role and content; so the list holds exactly one system message. The
  user message reads \<open>Context:\<close>, a line break, the context block, a blank line,
  \<open>Question: \<close> with the query, and a line break; the context block holds, for
  each context in order and separated by blank lines, the line
  \<open>[Source: <source>]\<close> followed by the text.
\<close>

theorem build_prompt_shape:
  "\<exists>middle. build_prompt query contexts history
       = \<lparr>role = ''system'', content = system_prompt\<rparr> # middle
         @ [\<lparr>role = ''user'', content = content (last (build_prompt query contexts history))\<rparr>]
     \<and> middle = map as_message
         (filter keeps (case history of None \<Rightarrow> [] | Some h \<Rightarrow> drop (length h - 6) h))
     \<and> length middle \<le> 6
     \<and> (\<forall>m \<in> set middle. role m = ''user'' \<or> role m = ''assistant'')
     \<and> length (filter (\<lambda>m. role m = ''system'') (build_prompt query contexts history)) = 1
     \<and> (\<forall>m. keeps m \<longleftrightarrow>
           (m ''role'' = Some (JStr ''user'') \<or> m ''role'' = Some (JStr ''assistant''))
           \<and> (\<exists>c. m ''content'' = Some (JStr c)))
     \<and> (\<forall>m. keeps m \<longrightarrow> m ''role'' = Some (JStr (role (as_message m)))
           \<and> m ''content'' = Some (JStr (content (as_message m))))
     \<and> content (last (build_prompt query contexts history))
         = ''Context:'' @ [CHR 0x0A]
           @ (case contexts of
                [] \<Rightarrow> []
              | c # rest \<Rightarrow>
                  (''[Source: '' @ item_source c @ '']'' @ [CHR 0x0A] @ item_text c)
                  @ concat (map (\<lambda>d. [CHR 0x0A, CHR 0x0A]
                        @ ''[Source: '' @ item_source d @ '']'' @ [CHR 0x0A] @ item_text d) rest))
           @ [CHR 0x0A, CHR 0x0A] @ ''Question: '' @ query @ [CHR 0x0A]
     \<and> (\<forall>c \<in> set contexts.
           sublist (''[Source: '' @ item_source c @ '']'' @ [CHR 0x0A] @ item_text c)
             (content (last (build_prompt query contexts history))))
     \<and> sublist (''Question: '' @ query) (content (last (build_prompt query contexts history)))"
proof -
  define last6 where "last6 = (case history of None \<Rightarrow> [] | Some h \<Rightarrow> drop (length h - 6) h)"
  define middle where "middle = map as_message (filter keeps last6)"
  let ?fmt = "\<lambda>c. ''[Source: '' @ item_source c @ '']'' @ [CHR 0x0A] @ item_text c"
  have bp: "build_prompt query contexts history
       = \<lparr>role = ''system'', content = system_prompt\<rparr> # middle
         @ [\<lparr>role = ''user'', content = user_prompt query contexts\<rparr>]"
    by (cases history)
      (simp_all add: build_prompt_def middle_def last6_def history_loop_append slice_from_last6 Let_def)
  then have lst: "content (last (build_prompt query contexts history)) = user_prompt query contexts"
    by simp
  have "length last6 \<le> 6" by (cases history) (simp_all add: last6_def)
  then have len: "length middle \<le> 6"
    unfolding middle_def length_map by (rule le_trans [OF length_filter_le])
  have roles: "\<forall>m \<in> set middle. role m = ''user'' \<or> role m = ''assistant''"
    using keeps_role by (auto simp: middle_def)
  then have "filter (\<lambda>m. role m = ''system'') middle = []"
    by (auto simp: filter_empty_conv)
  then have one: "length (filter (\<lambda>m. role m = ''system'') (build_prompt query contexts history)) = 1"
    unfolding bp by simp
  have k: "\<forall>m. keeps m \<longrightarrow> m ''role'' = Some (JStr (role (as_message m)))
           \<and> m ''content'' = Some (JStr (content (as_message m)))"
    by (auto simp: keeps_def as_message_def dict_get_def split: option.splits json.splits)
  have cb: "context_block contexts = join [CHR 0x0A, CHR 0x0A] (map ?fmt contexts)"
    by (simp add: context_block_def newline_def)
  have up: "user_prompt query contexts
      = ''Context:'' @ [CHR 0x0A] @ context_block contexts
        @ [CHR 0x0A, CHR 0x0A] @ ''Question: '' @ query @ [CHR 0x0A]"
    by (simp add: user_prompt_def newline_def)
  have ex: "user_prompt query contexts
      = ''Context:'' @ [CHR 0x0A]
           @ (case contexts of
                [] \<Rightarrow> []
              | c # rest \<Rightarrow> ?fmt c @ concat (map (\<lambda>d. [CHR 0x0A, CHR 0x0A] @ ?fmt d) rest))
           @ [CHR 0x0A, CHR 0x0A] @ ''Question: '' @ query @ [CHR 0x0A]"
    unfolding up cb join_explicit by (cases contexts) (simp_all add: o_def)
  have sub: "\<forall>c \<in> set contexts. sublist (?fmt c) (user_prompt query contexts)"
  proof
    fix c assume "c \<in> set contexts"
    then have "?fmt c \<in> set (map ?fmt contexts)" by auto
    then have "sublist (?fmt c) (context_block contexts)"
      unfolding cb by (rule join_sublist)
    then obtain ps ss where "context_block contexts = ps @ ?fmt c @ ss"
      by (auto simp: sublist_def)
    then have "user_prompt query contexts
        = (''Context:'' @ [CHR 0x0A] @ ps) @ ?fmt c
          @ (ss @ [CHR 0x0A, CHR 0x0A] @ ''Question: '' @ query @ [CHR 0x0A])"
      unfolding up by simp
    then show "sublist (?fmt c) (user_prompt query contexts)"
      unfolding sublist_def by blast
  qed
  have "user_prompt query contexts
      = (''Context:'' @ [CHR 0x0A] @ context_block contexts @ [CHR 0x0A, CHR 0x0A])
        @ (''Question: '' @ query) @ [CHR 0x0A]"
    unfolding up by simp
  then have q: "sublist (''Question: '' @ query) (user_prompt query contexts)"
    unfolding sublist_def by blast
  show ?thesis
    unfolding lst
    by (intro exI [of _ middle] conjI)
      (use bp len roles one k keeps_iff ex sub q in \<open>simp_all add: middle_def last6_def\<close>)
qed

lemma build_prompt_example:
  "build_prompt ''Q?'' ex_contexts (Some ex_history)
   = [\<lparr>role = ''system'', content = system_prompt\<rparr>,
      \<lparr>role = ''user'', content = ''m2''\<rparr>,
      \<lparr>role = ''user'', content = ''m5''\<rparr>,
      \<lparr>role = ''assistant'', content = ''m7''\<rparr>,
      \<lparr>role = ''user'',
       content = ''Context:'' @ [CHR 0x0A]
         @ ''[Source: ct.jsonl]'' @ [CHR 0x0A] @ ''CT text'' @ [CHR 0x0A, CHR 0x0A]
         @ ''[Source: mri.jsonl]'' @ [CHR 0x0A] @ ''MRI text'' @ [CHR 0x0A, CHR 0x0A]
         @ ''Question: Q?'' @ [CHR 0x0A]\<rparr>]"
  by (simp add: build_prompt_def slice_from_def clamp_index_def keeps_def as_message_def
      dict_get_def user_prompt_def context_block_def newline_def Let_def ex_history_def
      ex_contexts_def)

theorem build_prompt_shape_witness:
  "build_prompt ''Q?'' ex_contexts (Some ex_history)
   = [\<lparr>role = ''system'', content = system_prompt\<rparr>,
      \<lparr>role = ''user'', content = ''m2''\<rparr>,
      \<lparr>role = ''user'', content = ''m5''\<rparr>,
      \<lparr>role = ''assistant'', content = ''m7''\<rparr>,
      \<lparr>role = ''user'',
       content = ''Context:'' @ [CHR 0x0A]
         @ ''[Source: ct.jsonl]'' @ [CHR 0x0A] @ ''CT text'' @ [CHR 0x0A, CHR 0x0A]
         @ ''[Source: mri.jsonl]'' @ [CHR 0x0A] @ ''MRI text'' @ [CHR 0x0A, CHR 0x0A]
         @ ''Question: Q?'' @ [CHR 0x0A]\<rparr>]
   \<and> length (filter (\<lambda>m. role m = ''system'')
         (build_prompt ''Q?'' ex_contexts (Some ex_history))) = 1
   \<and> sublist (''[Source: mri.jsonl]'' @ [CHR 0x0A] @ ''MRI text'')
        (content (last (build_prompt ''Q?'' ex_contexts (Some ex_history))))"
proof -
  let ?c = "\<lparr>item_id = ''2'', item_text = ''MRI text'', item_source = ''mri.jsonl'', embedding = None\<rparr>"
  have m: "?c \<in> set ex_contexts" by (simp add: ex_contexts_def)
  from build_prompt_shape [of "''Q?''" ex_contexts "Some ex_history"]
  have one: "length (filter (\<lambda>m. role m = ''system'')
         (build_prompt ''Q?'' ex_contexts (Some ex_history))) = 1"
    and all: "\<forall>c \<in> set ex_contexts.
           sublist (''[Source: '' @ item_source c @ '']'' @ [CHR 0x0A] @ item_text c)
             (content (last (build_prompt ''Q?'' ex_contexts (Some ex_history))))"
    by blast+
  from all m have "sublist (''[Source: '' @ item_source ?c @ '']'' @ [CHR 0x0A] @ item_text ?c)
      (content (last (build_prompt ''Q?'' ex_contexts (Some ex_history))))"
    by (rule bspec)
  then have "sublist (''[Source: mri.jsonl]'' @ [CHR 0x0A] @ ''MRI text'')
      (content (last (build_prompt ''Q?'' ex_contexts (Some ex_history))))"
    by simp
  with one build_prompt_example show ?thesis by (intro conjI)
qed

section \<open>save and load\<close>

lemma save_Inr:
  assumes "save ev self w = Inr w'"
  shows "w' = w\<lparr>dirs := dirs w \<union> set (prefixes (parent (path self))),
                 files := (files w)(path self \<mapsto> dumps ev (items self))\<rparr>
       \<and> path self \<notin> dirs w'"
  using assms
  by (auto simp: save_def mkdir_parents_def write_text_def split: if_splits sum.splits)


text \<open>
  What \<open>save\<close> and \<open>load\<close> do themselves: after a successful \<open>save\<close> the file at the
  store's path holds the dumped collection, and \<open>load\<close> on a fresh store at the same
  path hands that text to \<open>json.loads\<close>. Whether \<open>json.loads\<close> then returns the
  collection that \<open>json.dumps\<close> was given is a matter of the codec (the printing and
  reading of floats, the escaping of strings, the encoding of the file), which is
  not modelled.
\<close>

lemma load_after_save:
  assumes "save ev self w = Inr w'"
  shows "files w' (path self) = Some (dumps ev (items self))
       \<and> load ev (init (path self)) w'
           = (case loads ev (dumps ev (items self)) of
                Inl e \<Rightarrow> Inl e
              | Inr its \<Rightarrow> Inr \<lparr>path = path self, items = its\<rparr>)"
proof -
  from save_Inr [OF assms]
  have w': "files w' (path self) = Some (dumps ev (items self))" "path self \<notin> dirs w'"
    by auto
  then show ?thesis
    by (simp add: load_def init_def path_exists_def read_text_def domI split: sum.splits)
qed

section \<open>ingest\_records\<close>

lemma upt_shift: "[c ..< c + Suc n] = c # [Suc c ..< Suc c + n]"
  by (subst upt_rec) simp

lemma upt_split: "[c ..< c + a] @ [c + a ..< c + a + b] = [c ..< c + (a + b)]"
  using upt_add_eq_append [of c "c + a" b] by (simp add: add.assoc)

lemma append_chunks_value:
  "append_chunks ev chs chunks ids w
     = (chunks @ chs,
        ids @ map (uuid4 ev) [uuid_calls w ..< uuid_calls w + length chs],
        w\<lparr>uuid_calls := uuid_calls w + length chs\<rparr>)"
proof (induction chs arbitrary: chunks ids w)
  case Nil
  then show ?case by simp
next
  case (Cons ch chs)
  have "[uuid_calls w ..< uuid_calls w + length (ch # chs)]
      = uuid_calls w # [Suc (uuid_calls w) ..< Suc (uuid_calls w) + length chs]"
    using upt_shift [of "uuid_calls w" "length chs"] by simp
  then show ?case by (simp add: Cons.IH)
qed

lemma default_chunk_text: "chunk_text s 800 120 = Some (default_chunks s)"
  unfolding default_chunks_def by (rule chunk_text_value) simp_all

lemma flatten_records_value:
  "flatten_records ev records chunks ids w
     = Some (chunks @ all_chunks records,
             ids @ map (uuid4 ev) [uuid_calls w ..< uuid_calls w + length (all_chunks records)],
             w\<lparr>uuid_calls := uuid_calls w + length (all_chunks records)\<rparr>)"
proof (induction records arbitrary: chunks ids w)
  case Nil
  then show ?case by (simp add: all_chunks_def)
next
  case (Cons r records)
  show ?case
  proof (cases "\<exists>s. record_text r = JStr s \<and> strip s \<noteq> []")
    case False
    then have v: "valid_texts (r # records) = valid_texts records"
      by (auto split: json.splits)
    have "flatten_records ev (r # records) chunks ids w = flatten_records ev records chunks ids w"
      using False by (auto split: json.splits)
    then show ?thesis by (simp only: Cons.IH all_chunks_def v)
  next
    case True
    then obtain s where s: "record_text r = JStr s" "strip s \<noteq> []" by blast
    let ?cs = "default_chunks s"
    let ?c = "uuid_calls w"
    have v: "all_chunks (r # records) = ?cs @ all_chunks records"
      using s by (simp add: all_chunks_def)
    have "flatten_records ev (r # records) chunks ids w
        = flatten_records ev records (chunks @ ?cs)
            (ids @ map (uuid4 ev) [?c ..< ?c + length ?cs])
            (w\<lparr>uuid_calls := ?c + length ?cs\<rparr>)"
      using s by (simp add: default_chunk_text append_chunks_value)
    also have "\<dots> = Some ((chunks @ ?cs) @ all_chunks records,
        (ids @ map (uuid4 ev) [?c ..< ?c + length ?cs])
          @ map (uuid4 ev) [?c + length ?cs ..< ?c + length ?cs + length (all_chunks records)],
        w\<lparr>uuid_calls := ?c + length ?cs + length (all_chunks records)\<rparr>)"
      by (simp add: Cons.IH)
    also have "[?c ..< ?c + length ?cs] @ [?c + length ?cs ..< ?c + length ?cs + length (all_chunks records)]
        = [?c ..< ?c + length (?cs @ all_chunks records)]"
      using upt_split [of ?c "length ?cs" "length (all_chunks records)"] by simp
    then have "(ids @ map (uuid4 ev) [?c ..< ?c + length ?cs])
          @ map (uuid4 ev) [?c + length ?cs ..< ?c + length ?cs + length (all_chunks records)]
        = ids @ map (uuid4 ev) [?c ..< ?c + length (?cs @ all_chunks records)]"
      by (metis append.assoc map_append)
    finally show ?thesis by (simp add: v add.assoc)
  qed
qed



lemma strip_nonempty:
  assumes "\<exists>c \<in> set xs. \<not> is_space c"
  shows "strip xs \<noteq> []"
proof -
  let ?d = "dropWhile is_space xs"
  from assms have ne: "?d \<noteq> []" by (simp add: dropWhile_eq_Nil_conv)
  then have "\<not> is_space (hd ?d)" by (rule hd_dropWhile)
  moreover from ne have "hd ?d \<in> set (rev ?d)" by simp
  ultimately have "dropWhile is_space (rev ?d) \<noteq> []"
    by (auto simp: dropWhile_eq_Nil_conv)
  then show ?thesis by (simp add: strip_def)
qed

lemma strip_nonempty_conv: "strip xs \<noteq> [] \<longleftrightarrow> (\<exists>c \<in> set xs. \<not> is_space c)"
proof
  assume "strip xs \<noteq> []"
  then show "\<exists>c \<in> set xs. \<not> is_space c"
    by (auto simp: strip_def dropWhile_eq_Nil_conv dest: set_dropWhileD)
qed (rule strip_nonempty)

lemma chunk_spans_reach:
  assumes "1 \<le> C" "0 \<le> ov" "ov < C" "0 \<le> start"
  shows "start \<le> p \<Longrightarrow> p < n \<Longrightarrow> \<exists>(s, e) \<in> set (chunk_spans n C ov start). s \<le> p \<and> p < e"
  using assms
proof (induction start rule: good_induct [where n = n])
  case (finished start)
  then show ?case by simp
next
  case (final start)
  then show ?case by (simp add: chunk_spans_last)
next
  case (step start)
  have s: "chunk_spans n C ov start = (start, start + C) # chunk_spans n C ov (start + C - ov)"
    using assms(1-3) step.hyps by (rule chunk_spans_step)
  show ?case
  proof (cases "p < start + C")
    case True
    with step.prems show ?thesis unfolding s by simp
  next
    case False
    then have "start + C - ov \<le> p" using assms(2) by simp
    from step.IH [OF this step.prems(2)] show ?thesis unfolding s by auto
  qed
qed

lemma default_chunks_nonempty:
  assumes "strip s \<noteq> []"
  shows "default_chunks s \<noteq> []"
proof -
  from assms obtain c where c: "c \<in> set s" "\<not> is_space c"
    by (auto simp: strip_nonempty_conv)
  then obtain p where p: "p < length s" "s ! p = c" by (auto simp: in_set_conv_nth)
  have "\<exists>(a, b) \<in> set (chunk_spans (int (length s)) 800 120 0). a \<le> int p \<and> int p < b"
    using p(1) by (intro chunk_spans_reach) simp_all
  then obtain a b where ab: "(a, b) \<in> set (chunk_spans (int (length s)) 800 120 0)"
      "a \<le> int p" "int p < b"
    by blast
  have bnd: "\<forall>(s', e) \<in> set (chunk_spans (int (length s)) 800 120 0).
      0 \<le> s' \<and> s' < e \<and> e \<le> int (length s) \<and> e - s' \<le> 800"
    by (intro chunk_spans_bounds) simp_all
  with ab(1) have b: "0 \<le> a" "a < b" "b \<le> int (length s)" by auto
  have sl: "slice s a b = take (nat b - nat a) (drop (nat a) s)"
    using b by (intro slice_in_range) simp_all
  have "slice s a b ! (p - nat a) = s ! p"
    unfolding sl using ab(2,3) b by (simp add: nat_le_iff nat_less_iff less_diff_conv2) 
  moreover have "p - nat a < length (slice s a b)"
    unfolding sl using ab(2,3) b p(1) by (simp add: nat_le_iff)
  ultimately have "c \<in> set (slice s a b)" using p(2) by (metis nth_mem)
  with c(2) have "strip (slice s a b) \<noteq> []" by (intro strip_nonempty) blast
  with ab(1) have "strip (slice s a b) \<in> set (default_chunks s)"
    by (force simp: default_chunks_def trim_windows_def)
  then show ?thesis by auto
qed

lemma all_chunks_empty_iff: "all_chunks records = [] \<longleftrightarrow> valid_texts records = []"
proof
  assume a: "all_chunks records = []"
  show "valid_texts records = []"
  proof (rule ccontr)
    assume "valid_texts records \<noteq> []"
    then obtain s where s: "s \<in> set (valid_texts records)" by (cases "valid_texts records") auto
    have "strip s' \<noteq> []" if "s' \<in> set (valid_texts rs)" for s' rs
      using that by (induction rs) (auto split: json.splits if_splits)
    from this [OF s] have "default_chunks s \<noteq> []" by (rule default_chunks_nonempty)
    with s a show False by (auto simp: all_chunks_def)
  qed
qed (simp add: all_chunks_def)


lemma valid_texts_empty_iff:
  "valid_texts records = []
     \<longleftrightarrow> (\<forall>r \<in> set records. \<forall>s. record_text r = JStr s \<longrightarrow> strip s = [])"
  by (induction records) (auto split: json.splits)

lemma ingest_records_empty:
  assumes "all_chunks records = []"
  shows "ingest_records ev self w records source_name = Returns (0, self, w)"
  using assms by (simp add: ingest_records_def flatten_records_value)

text \<open>
  C10. No record yields a chunk exactly when every record's extracted text is not a
  string or is empty after trimming. Then \<open>ingest_records\<close> returns 0 and leaves the
  store and the world as they were: no call to the embedding endpoint is recorded,
  no identifier is drawn, no item is appended and no file is written.
\<close>

theorem ingest_records_nothing:
  "(all_chunks records = []
      \<longleftrightarrow> (\<forall>r \<in> set records. \<forall>s. record_text r = JStr s \<longrightarrow> strip s = []))
   \<and> (all_chunks records = []
      \<longrightarrow> ingest_records ev self w records source_name = Returns (0, self, w))"
  using ingest_records_empty [of records ev self w source_name]
  by (simp add: all_chunks_empty_iff valid_texts_empty_iff)

lemma ex_blank_texts: "valid_texts ex_blank_records = []"
  by (simp add: ex_blank_records_def record_text_def py_or_def dict_get_def strip_def is_space_def)

theorem ingest_records_nothing_witness:
  "all_chunks ex_blank_records = []
   \<and> ingest_records ex_env ex_store ex_world ex_blank_records ''sample.jsonl''
       = Returns (0, ex_store, ex_world)"
proof -
  have "all_chunks ex_blank_records = []"
    by (simp add: all_chunks_def ex_blank_texts)
  with ingest_records_nothing [of ex_blank_records ex_env ex_store ex_world "''sample.jsonl''"]
  show ?thesis by blast
qed










end
